theory Spec2Isabelle
  imports Main
begin

section \<open>The object graph of darch/core.py\<close>

text \<open>
  The Python objects (modules, inputs, outputs, hyperparameters) refer to each other and
  are mutated in place, so the model keeps them in an explicit store: one list per class,
  an object being named by its position in the list of its class. A Python reference
  always denotes a live object; a position outside the store has no counterpart in Python
  and is reported as \<open>InvalidReference\<close>.
\<close>

datatype error =
  AssertionError | ValueError | AttributeError | NotImplementedError | RecursionError |
  InvalidReference

text \<open>What a caller may pass where a port is expected (Python checks it with isinstance).\<close>

datatype ref = InputRef nat | OutputRef nat

record Input =
  i_module :: nat
  from_output :: "nat option"

record Output =
  o_module :: nat
  to_inputs :: "nat list"

text \<open>The three OrderedDicts of a module are association lists from local names to objects.\<close>

record Module =
  inputs :: "(string \<times> nat) list"
  outputs :: "(string \<times> nat) list"
  hyperps :: "(string \<times> nat) list"
  is_compiled :: bool

text \<open>\<open>h_modules\<close> is the OrderedSet \<open>self.modules\<close>: its keys in insertion order.\<close>

record 'v Hyperparameter =
  set_done :: bool
  val :: "'v option"
  h_modules :: "nat list"

record 'v heap =
  modules_of :: "Module list"
  inputs_of :: "Input list"
  outputs_of :: "Output list"
  hyperps_of :: "'v Hyperparameter list"

definition lookup :: "'a list \<Rightarrow> nat \<Rightarrow> 'a option" where
  "lookup xs i = (if i < length xs then Some (xs ! i) else None)"

subsection \<open>Input\<close>

definition is_connected :: "nat \<Rightarrow> 'v heap \<Rightarrow> bool" where
  "is_connected self s =
     (case lookup (inputs_of s) self of None \<Rightarrow> False | Some i \<Rightarrow> from_output i \<noteq> None)"

definition get_connected_output :: "nat \<Rightarrow> 'v heap \<Rightarrow> nat option" where
  "get_connected_output self s =
     (case lookup (inputs_of s) self of None \<Rightarrow> None | Some i \<Rightarrow> from_output i)"

text \<open>
  \<open>Input.connect\<close>: two assertions, then the two writes. A failed call returns the error
  together with the store as it is at the raise.
\<close>

definition Input_connect :: "nat \<Rightarrow> ref \<Rightarrow> 'v heap \<Rightarrow> error option \<times> 'v heap" where
  "Input_connect self out s =
     (case out of
        InputRef _ \<Rightarrow> (Some AssertionError, s)
      | OutputRef ox \<Rightarrow>
          (case lookup (inputs_of s) self of
             None \<Rightarrow> (Some InvalidReference, s)
           | Some i \<Rightarrow>
               if from_output i \<noteq> None then (Some AssertionError, s)
               else
                 (case lookup (outputs_of s) ox of
                    None \<Rightarrow> (Some InvalidReference, s)
                  | Some ob \<Rightarrow>
                      (None,
                       s\<lparr>inputs_of := (inputs_of s)[self := i\<lparr>from_output := Some ox\<rparr>],
                         outputs_of :=
                           (outputs_of s)[ox := ob\<lparr>to_inputs := to_inputs ob @ [self]\<rparr>]\<rparr>))))"

text \<open>
  \<open>Input.disconnect\<close>: \<open>list.remove\<close> deletes the first occurrence and raises ValueError
  when there is none.
\<close>

definition Input_disconnect :: "nat \<Rightarrow> 'v heap \<Rightarrow> error option \<times> 'v heap" where
  "Input_disconnect self s =
     (case lookup (inputs_of s) self of
        None \<Rightarrow> (Some InvalidReference, s)
      | Some i \<Rightarrow>
          (case from_output i of
             None \<Rightarrow> (Some AssertionError, s)
           | Some ox \<Rightarrow>
               (case lookup (outputs_of s) ox of
                  None \<Rightarrow> (Some InvalidReference, s)
                | Some ob \<Rightarrow>
                    if self \<notin> set (to_inputs ob) then (Some ValueError, s)
                    else
                      (None,
                       s\<lparr>outputs_of :=
                           (outputs_of s)[ox := ob\<lparr>to_inputs := remove1 self (to_inputs ob)\<rparr>],
                         inputs_of := (inputs_of s)[self := i\<lparr>from_output := None\<rparr>]\<rparr>))))"

subsection \<open>Output\<close>

definition get_connected_inputs :: "nat \<Rightarrow> 'v heap \<Rightarrow> nat list" where
  "get_connected_inputs self s =
     (case lookup (outputs_of s) self of None \<Rightarrow> [] | Some ob \<Rightarrow> to_inputs ob)"

text \<open>
  \<open>Output.connect\<close> is the single statement \<open>to_input.connect(self)\<close>, dispatched on the
  class of \<open>to_input\<close>: on an Input it is \<open>Input.connect\<close>, on an Output it is
  \<open>Output.connect\<close> again with the two outputs exchanged. No argument ends that mutual
  recursion; the interpreter does, by raising RecursionError when its recursion limit is
  reached. \<open>limit\<close> is the number of further nested calls of \<open>Output.connect\<close> that the
  recursion limit still allows when the call is made. Nothing is written before the
  nested call, so the exception leaves the store as it was.
\<close>

fun Output_connect :: "nat \<Rightarrow> nat \<Rightarrow> ref \<Rightarrow> 'v heap \<Rightarrow> error option \<times> 'v heap" where
  "Output_connect limit self (InputRef ix) s = Input_connect ix (OutputRef self) s"
| "Output_connect 0 self (OutputRef ox) s = (Some RecursionError, s)"
| "Output_connect (Suc limit) self (OutputRef ox) s = Output_connect limit ox (OutputRef self) s"

text \<open>
  \<open>Output.reroute_all_connected_inputs\<close>: \<open>for ix in self.to_inputs\<close> walks the live list
  by position (Python's list iterator holds an index and stops when the index reaches the
  current length), while the body removes from and appends to such lists.
\<close>

partial_function (option) reroute_loop ::
  "nat \<Rightarrow> ref \<Rightarrow> nat \<Rightarrow> 'v heap \<Rightarrow> (error option \<times> 'v heap) option" where
  "reroute_loop self out k s =
     (case lookup (outputs_of s) self of
        None \<Rightarrow> Some (Some InvalidReference, s)
      | Some ob \<Rightarrow>
          if k < length (to_inputs ob) then
            (case Input_disconnect (to_inputs ob ! k) s of
               (Some e, s1) \<Rightarrow> Some (Some e, s1)
             | (None, s1) \<Rightarrow>
                 (case Input_connect (to_inputs ob ! k) out s1 of
                    (Some e, s2) \<Rightarrow> Some (Some e, s2)
                  | (None, s2) \<Rightarrow> reroute_loop self out (k + 1) s2))
          else Some (None, s))"

definition reroute_all_connected_inputs ::
  "nat \<Rightarrow> ref \<Rightarrow> 'v heap \<Rightarrow> (error option \<times> 'v heap) option" where
  "reroute_all_connected_inputs self out s = reroute_loop self out 0 s"

subsection \<open>OrderedSet and module extraction\<close>

text \<open>An OrderedSet is the list of its keys in insertion order; \<open>add\<close> skips a key already there.\<close>

definition OrderedSet_add :: "'a \<Rightarrow> 'a list \<Rightarrow> 'a list" where
  "OrderedSet_add x d = (if x \<notin> set d then d @ [x] else d)"

definition get_module :: "ref \<Rightarrow> 'v heap \<Rightarrow> nat option" where
  "get_module x s =
     (case x of
        InputRef ix \<Rightarrow> map_option i_module (lookup (inputs_of s) ix)
      | OutputRef ox \<Rightarrow> map_option o_module (lookup (outputs_of s) ox))"

fun extract_loop :: "'v heap \<Rightarrow> ref list \<Rightarrow> nat list \<Rightarrow> error + nat list" where
  "extract_loop s [] ms = Inr ms"
| "extract_loop s (x # xs) ms =
     (case get_module x s of
        None \<Rightarrow> Inl InvalidReference
      | Some m \<Rightarrow> extract_loop s xs (OrderedSet_add m ms))"

definition extract_unique_modules :: "'v heap \<Rightarrow> ref list \<Rightarrow> error + nat list" where
  "extract_unique_modules s input_or_output_lst = extract_loop s input_or_output_lst []"

subsection \<open>traverse_backward\<close>

text \<open>
  \<open>for m in ms\<close> runs over a list that the body appends to, so the loop is a work list:
  the argument \<open>ms\<close> of \<open>traverse_loop\<close> is the part of the Python list that the iterator
  has not reached yet. The visit function \<open>fn\<close> is a closure; its captured variables are
  the accumulator \<open>a\<close>, and it returns the stop signal with the new accumulator.
  \<open>visit_inputs\<close> is the inner loop over \<open>itervalues(m.inputs)\<close>.
\<close>

fun visit_inputs ::
  "'v heap \<Rightarrow> nat list \<Rightarrow> nat set \<Rightarrow> nat list \<Rightarrow> error + (nat set \<times> nat list)" where
  "visit_inputs s [] memo ms = Inr (memo, ms)"
| "visit_inputs s (ix # ixs) memo ms =
     (case lookup (inputs_of s) ix of
        None \<Rightarrow> Inl InvalidReference
      | Some i \<Rightarrow>
          (case from_output i of
             None \<Rightarrow> visit_inputs s ixs memo ms
           | Some ox \<Rightarrow>
               (case lookup (outputs_of s) ox of
                  None \<Rightarrow> Inl InvalidReference
                | Some ob \<Rightarrow>
                    if o_module ob \<notin> memo
                    then visit_inputs s ixs (insert (o_module ob) memo) (ms @ [o_module ob])
                    else visit_inputs s ixs memo ms)))"

text \<open>Termination: the modules that can still enter the memo are owners of stored outputs.\<close>

definition output_owners :: "'v heap \<Rightarrow> nat set" where
  "output_owners s = o_module ` set (outputs_of s)"

lemma visit_inputs_grows:
  "visit_inputs s ixs memo ms = Inr (memo', ms') \<Longrightarrow>
     \<exists>new. ms' = ms @ new \<and> memo' = memo \<union> set new \<and> set new \<inter> memo = {} \<and>
           distinct new \<and> set new \<subseteq> output_owners s"
proof (induction ixs arbitrary: memo ms)
  case Nil
  then show ?case by simp
next
  case (Cons ix ixs)
  show ?case
  proof (cases "lookup (inputs_of s) ix")
    case None
    with Cons.prems show ?thesis by simp
  next
    case (Some i)
    note i = this
    show ?thesis
    proof (cases "from_output i")
      case None
      with i Cons.prems have "visit_inputs s ixs memo ms = Inr (memo', ms')" by simp
      from Cons.IH [OF this] show ?thesis .
    next
      case (Some ox)
      note ox = this
      show ?thesis
      proof (cases "lookup (outputs_of s) ox")
        case None
        with i ox Cons.prems show ?thesis by simp
      next
        case (Some ob)
        note ob = this
        have own: "o_module ob \<in> output_owners s"
          using ob by (auto simp: lookup_def output_owners_def split: if_splits)
        show ?thesis
        proof (cases "o_module ob \<in> memo")
          case True
          with i ox ob Cons.prems have "visit_inputs s ixs memo ms = Inr (memo', ms')"
            by simp
          from Cons.IH [OF this] show ?thesis .
        next
          case False
          with i ox ob Cons.prems
          have "visit_inputs s ixs (insert (o_module ob) memo) (ms @ [o_module ob]) =
                  Inr (memo', ms')"
            by simp
          from Cons.IH [OF this] obtain new where
            new: "ms' = (ms @ [o_module ob]) @ new"
              "memo' = insert (o_module ob) memo \<union> set new"
              "set new \<inter> insert (o_module ob) memo = {}"
              "distinct new" "set new \<subseteq> output_owners s"
            by blast
          show ?thesis
            apply (rule exI [of _ "o_module ob # new"])
            using new False own by auto
        qed
      qed
    qed
  qed
qed

function traverse_loop ::
  "'v heap \<Rightarrow> (nat \<Rightarrow> 'a \<Rightarrow> error + bool \<times> 'a) \<Rightarrow> nat list \<Rightarrow> nat set \<Rightarrow> 'a \<Rightarrow> error + 'a"
  where
  "traverse_loop s fn [] memo a = Inr a"
| "traverse_loop s fn (m # ms) memo a =
     (case fn m a of
        Inl e \<Rightarrow> Inl e
      | Inr (is_over, a') \<Rightarrow>
          if is_over then Inr a'
          else
            (case lookup (modules_of s) m of
               None \<Rightarrow> Inl InvalidReference
             | Some md \<Rightarrow>
                 (case visit_inputs s (map snd (inputs md)) memo ms of
                    Inl e \<Rightarrow> Inl e
                  | Inr (memo', ms') \<Rightarrow> traverse_loop s fn ms' memo' a')))"
  by pat_completeness auto

lemma traverse_loop_decreases:
  assumes "visit_inputs s ixs memo ms = Inr (memo', ms')"
  shows "card (output_owners s - memo') < card (output_owners s - memo) \<or>
         (card (output_owners s - memo') = card (output_owners s - memo) \<and>
          length ms' < length (m # ms))"
proof -
  from visit_inputs_grows [OF assms] obtain new where
    new: "ms' = ms @ new" "memo' = memo \<union> set new" "set new \<inter> memo = {}"
      "set new \<subseteq> output_owners s"
    by blast
  have fin: "finite (output_owners s - memo)" by (simp add: output_owners_def)
  show ?thesis
  proof (cases new)
    case Nil
    with new show ?thesis by simp
  next
    case (Cons x xs)
    with new have "x \<in> output_owners s - memo" "x \<notin> output_owners s - memo'" by auto
    moreover have "output_owners s - memo' \<subseteq> output_owners s - memo" using new by auto
    ultimately have "output_owners s - memo' \<subset> output_owners s - memo" by blast
    from psubset_card_mono [OF fin this] show ?thesis by simp
  qed
qed

termination traverse_loop
proof (relation "(\<lambda>(s, fn, ms, memo, a). card (output_owners s - memo)) <*mlex*>
                 measure (\<lambda>(s, fn, ms, memo, a). length ms)", goal_cases)
  case 1
  show ?case by (simp add: wf_mlex)
next
  case (2 s fn m ms memo a x2 is_over a' md y memo' ms')
  then have "visit_inputs s (map snd (inputs md)) memo ms = Inr (memo', ms')" by simp
  from traverse_loop_decreases [OF this, of m]
  show ?case by (auto simp: mlex_iff)
qed

definition traverse_backward ::
  "'v heap \<Rightarrow> nat list \<Rightarrow> (nat \<Rightarrow> 'a \<Rightarrow> error + bool \<times> 'a) \<Rightarrow> 'a \<Rightarrow> error + 'a" where
  "traverse_backward s output_lst fn a =
     (case extract_unique_modules s (map OutputRef output_lst) of
        Inl e \<Rightarrow> Inl e
      | Inr ms \<Rightarrow> traverse_loop s fn ms {} a)"

subsection \<open>is_specified and get_unset_hyperparameters\<close>

text \<open>
  The closure of \<open>is_specified\<close> captures the one-element list \<open>is_spec\<close>; the loop over
  \<open>itervalues(module.hyperps)\<close> returns at the first hyperparameter that is not set.
\<close>

fun is_specified_hyperps :: "'v heap \<Rightarrow> nat list \<Rightarrow> bool \<Rightarrow> error + bool \<times> bool" where
  "is_specified_hyperps s [] is_spec = Inr (False, is_spec)"
| "is_specified_hyperps s (h # hs) is_spec =
     (case lookup (hyperps_of s) h of
        None \<Rightarrow> Inl InvalidReference
      | Some hp \<Rightarrow>
          if \<not> set_done hp then Inr (True, False) else is_specified_hyperps s hs is_spec)"

definition is_specified_fn :: "'v heap \<Rightarrow> nat \<Rightarrow> bool \<Rightarrow> error + bool \<times> bool" where
  "is_specified_fn s module is_spec =
     (case lookup (modules_of s) module of
        None \<Rightarrow> Inl InvalidReference
      | Some md \<Rightarrow> is_specified_hyperps s (map snd (hyperps md)) is_spec)"

definition is_specified :: "'v heap \<Rightarrow> nat list \<Rightarrow> error + bool" where
  "is_specified s output_lst = traverse_backward s output_lst (is_specified_fn s) True"

text \<open>The closure of \<open>get_unset_hyperparameters\<close> captures the OrderedSet \<open>hs\<close>.\<close>

fun unset_hyperps :: "'v heap \<Rightarrow> nat list \<Rightarrow> nat list \<Rightarrow> error + bool \<times> nat list" where
  "unset_hyperps s [] hs = Inr (False, hs)"
| "unset_hyperps s (h # rest) hs =
     (case lookup (hyperps_of s) h of
        None \<Rightarrow> Inl InvalidReference
      | Some hp \<Rightarrow>
          if \<not> set_done hp then unset_hyperps s rest (OrderedSet_add h hs)
          else unset_hyperps s rest hs)"

definition get_unset_fn :: "'v heap \<Rightarrow> nat \<Rightarrow> nat list \<Rightarrow> error + bool \<times> nat list" where
  "get_unset_fn s module hs =
     (case lookup (modules_of s) module of
        None \<Rightarrow> Inl InvalidReference
      | Some md \<Rightarrow> unset_hyperps s (map snd (hyperps md)) hs)"

definition get_unset_hyperparameters :: "'v heap \<Rightarrow> nat list \<Rightarrow> error + nat list" where
  "get_unset_hyperparameters s output_lst =
     (case is_specified s output_lst of
        Inl e \<Rightarrow> Inl e
      | Inr is_spec \<Rightarrow>
          if is_spec then Inl AssertionError
          else traverse_backward s output_lst (get_unset_fn s) [])"

subsection \<open>determine_module_eval_seq\<close>

text \<open>\<open>inputs_modules\<close> is the comprehension \<open>[ix.get_module() for ix in ix_lst]\<close>.\<close>

fun inputs_modules :: "'v heap \<Rightarrow> nat list \<Rightarrow> error + nat list" where
  "inputs_modules s [] = Inr []"
| "inputs_modules s (ix # ixs) =
     (case lookup (inputs_of s) ix of
        None \<Rightarrow> Inl InvalidReference
      | Some i \<Rightarrow>
          (case inputs_modules s ixs of Inl e \<Rightarrow> Inl e | Inr m_lst \<Rightarrow> Inr (i_module i # m_lst)))"

text \<open>The loop over \<open>itervalues(m.outputs)\<close> of a module that was just appended.\<close>

fun extend_frontier ::
  "'v heap \<Rightarrow> nat list \<Rightarrow> nat set \<Rightarrow> nat list \<Rightarrow> error + (nat set \<times> nat list)" where
  "extend_frontier s [] input_memo ms = Inr (input_memo, ms)"
| "extend_frontier s (ox # oxs) input_memo ms =
     (case lookup (outputs_of s) ox of
        None \<Rightarrow> Inl InvalidReference
      | Some ob \<Rightarrow>
          (case inputs_modules s (to_inputs ob) of
             Inl e \<Rightarrow> Inl e
           | Inr m_lst \<Rightarrow>
               extend_frontier s oxs (input_memo \<union> set (to_inputs ob)) (ms @ m_lst)))"

definition input_owners :: "'v heap \<Rightarrow> nat set" where
  "input_owners s = i_module ` set (inputs_of s)"

function eval_loop ::
  "'v heap \<Rightarrow> nat list \<Rightarrow> nat list \<Rightarrow> nat set \<Rightarrow> nat set \<Rightarrow> error + nat list" where
  "eval_loop s [] module_seq module_memo input_memo = Inr module_seq"
| "eval_loop s (m # ms) module_seq module_memo input_memo =
     (if m \<in> module_memo then eval_loop s ms module_seq module_memo input_memo
      else
        (case lookup (modules_of s) m of
           None \<Rightarrow> Inl InvalidReference
         | Some md \<Rightarrow>
             if list_all (\<lambda>ix. ix \<in> input_memo) (map snd (inputs md)) then
               (case extend_frontier s (map snd (outputs md)) input_memo ms of
                  Inl e \<Rightarrow> Inl e
                | Inr (input_memo', ms') \<Rightarrow>
                    eval_loop s ms' (module_seq @ [m]) (insert m module_memo) input_memo')
             else eval_loop s ms module_seq module_memo input_memo))"
  by pat_completeness auto

lemma inputs_modules_owners:
  "inputs_modules s ixs = Inr m_lst \<Longrightarrow> set m_lst \<subseteq> input_owners s"
proof (induction ixs arbitrary: m_lst)
  case Nil
  then show ?case by simp
next
  case (Cons ix ixs)
  then show ?case
    by (auto simp: lookup_def input_owners_def split: option.splits sum.splits if_splits)
qed

lemma extend_frontier_appends:
  "extend_frontier s oxs input_memo ms = Inr (input_memo', ms') \<Longrightarrow>
     \<exists>new. ms' = ms @ new \<and> set new \<subseteq> input_owners s"
proof (induction oxs arbitrary: input_memo ms)
  case Nil
  then show ?case by simp
next
  case (Cons ox oxs)
  from Cons.prems obtain ob m_lst where
    ob: "lookup (outputs_of s) ox = Some ob" and
    ml: "inputs_modules s (to_inputs ob) = Inr m_lst" and
    rest: "extend_frontier s oxs (input_memo \<union> set (to_inputs ob)) (ms @ m_lst) =
             Inr (input_memo', ms')"
    by (auto split: option.splits sum.splits)
  from Cons.IH [OF rest] obtain new where
    new: "ms' = (ms @ m_lst) @ new" "set new \<subseteq> input_owners s"
    by blast
  show ?case
    apply (rule exI [of _ "m_lst @ new"])
    using new inputs_modules_owners [OF ml] by simp
qed

termination eval_loop
proof (relation "(\<lambda>(s, ms, module_seq, module_memo, input_memo).
                    card ((input_owners s \<union> set ms) - module_memo)) <*mlex*>
                 measure (\<lambda>(s, ms, module_seq, module_memo, input_memo). length ms)",
       goal_cases)
  case 1
  show ?case by (simp add: wf_mlex)
next
  case (2 s m ms module_seq module_memo input_memo)
  have "card ((input_owners s \<union> set ms) - module_memo) \<le>
        card ((input_owners s \<union> set (m # ms)) - module_memo)"
    by (rule card_mono) (auto simp: input_owners_def)
  then show ?case by (simp add: mlex_iff) linarith
next
  case (3 s m ms module_seq module_memo input_memo md r input_memo' ms')
  then have ext: "extend_frontier s (map snd (outputs md)) input_memo ms = Inr (input_memo', ms')"
    by simp
  from extend_frontier_appends [OF ext] obtain new where
    new: "ms' = ms @ new" "set new \<subseteq> input_owners s"
    by blast
  have fin: "finite ((input_owners s \<union> set (m # ms)) - module_memo)"
    by (simp add: input_owners_def)
  have "(input_owners s \<union> set ms') - insert m module_memo \<subset>
        (input_owners s \<union> set (m # ms)) - module_memo"
    using new 3(1) by auto
  from psubset_card_mono [OF fin this] show ?case by (simp add: mlex_iff)
next
  case (4 s m ms module_seq module_memo input_memo md)
  have "card ((input_owners s \<union> set ms) - module_memo) \<le>
        card ((input_owners s \<union> set (m # ms)) - module_memo)"
    by (rule card_mono) (auto simp: input_owners_def)
  then show ?case by (simp add: mlex_iff) linarith
qed

definition determine_module_eval_seq :: "'v heap \<Rightarrow> nat list \<Rightarrow> error + nat list" where
  "determine_module_eval_seq s input_lst =
     (case extract_unique_modules s (map InputRef input_lst) of
        Inl e \<Rightarrow> Inl e
      | Inr ms \<Rightarrow> eval_loop s ms [] {} (set input_lst))"

section \<open>Hyperparameter\<close>

text \<open>
  \<open>_check_val\<close> and the \<open>_update\<close> hook of a module are abstract in core.py (the base
  methods raise NotImplementedError), so they are parameters here. \<open>check_val v\<close> is
  \<open>None\<close> when the subclass accepts \<open>v\<close> and the exception it raises otherwise. The hook of
  module \<open>m\<close> can read the hyperparameter and works on the rest of the program state \<open>'w\<close>;
  it returns the exception it raised, if any, with the state it left.
\<close>

definition Hyperparameter_init :: "'v Hyperparameter" where
  "Hyperparameter_init = \<lparr>set_done = False, val = None, h_modules = []\<rparr>"

definition is_set :: "'v Hyperparameter \<Rightarrow> bool" where
  "is_set H = set_done H"

definition get_val :: "'v Hyperparameter \<Rightarrow> error + 'v" where
  "get_val H =
     (if \<not> set_done H then Inl AssertionError
      else (case val H of None \<Rightarrow> Inl AttributeError | Some v \<Rightarrow> Inr v))"

definition register_module :: "nat \<Rightarrow> 'v Hyperparameter \<Rightarrow> 'v Hyperparameter" where
  "register_module module H = H\<lparr>h_modules := OrderedSet_add module (h_modules H)\<rparr>"

fun run_updates ::
  "(nat \<Rightarrow> 'v Hyperparameter \<Rightarrow> 'w \<Rightarrow> error option \<times> 'w) \<Rightarrow> 'v Hyperparameter \<Rightarrow>
     nat list \<Rightarrow> 'w \<Rightarrow> error option \<times> 'w" where
  "run_updates update H [] w = (None, w)"
| "run_updates update H (m # ms) w =
     (case update m H w of
        (Some e, w') \<Rightarrow> (Some e, w')
      | (None, w') \<Rightarrow> run_updates update H ms w')"

definition set_val ::
  "('v \<Rightarrow> error option) \<Rightarrow> (nat \<Rightarrow> 'v Hyperparameter \<Rightarrow> 'w \<Rightarrow> error option \<times> 'w) \<Rightarrow>
     'v \<Rightarrow> 'v Hyperparameter \<times> 'w \<Rightarrow> error option \<times> ('v Hyperparameter \<times> 'w)" where
  "set_val check_val update v st =
     (case st of (H, w) \<Rightarrow>
        if set_done H then (Some AssertionError, (H, w))
        else
          (case check_val v of
             Some e \<Rightarrow> (Some e, (H, w))
           | None \<Rightarrow>
               (case run_updates update (H\<lparr>set_done := True, val := Some v\<rparr>) (h_modules H) w of
                  (r, w') \<Rightarrow> (r, (H\<lparr>set_done := True, val := Some v\<rparr>, w')))))"

text \<open>A hook that only records who was called and what it saw of the hyperparameter.\<close>

definition record_update ::
  "nat \<Rightarrow> 'v Hyperparameter \<Rightarrow> (nat \<times> bool \<times> 'v option) list \<Rightarrow>
     error option \<times> (nat \<times> bool \<times> 'v option) list" where
  "record_update m H w = (None, w @ [(m, is_set H, val H)])"

section \<open>Module.forward\<close>

text \<open>
  \<open>_compile\<close> and \<open>_forward\<close> are abstract too: they are parameters that work on the
  state \<open>'w\<close> a module variant keeps besides the flag \<open>_is_compiled\<close>.
\<close>

definition Module_forward ::
  "('w \<Rightarrow> error option \<times> 'w) \<Rightarrow> ('w \<Rightarrow> error option \<times> 'w) \<Rightarrow> Module \<times> 'w \<Rightarrow>
     error option \<times> (Module \<times> 'w)" where
  "Module_forward compile_step forward_step st =
     (case st of (md, w) \<Rightarrow>
        if \<not> is_compiled md then
          (case compile_step w of
             (Some e, w1) \<Rightarrow> (Some e, (md, w1))
           | (None, w1) \<Rightarrow>
               (case forward_step w1 of (r, w2) \<Rightarrow> (r, (md\<lparr>is_compiled := True\<rparr>, w2))))
        else (case forward_step w of (r, w2) \<Rightarrow> (r, (md, w2))))"

text \<open>\<open>n\<close> calls of \<open>forward\<close> in a row; an exception ends the run.\<close>

fun forward_calls ::
  "('w \<Rightarrow> error option \<times> 'w) \<Rightarrow> ('w \<Rightarrow> error option \<times> 'w) \<Rightarrow> nat \<Rightarrow> Module \<times> 'w \<Rightarrow>
     error option \<times> (Module \<times> 'w)" where
  "forward_calls compile_step forward_step 0 st = (None, st)"
| "forward_calls compile_step forward_step (Suc n) st =
     (case Module_forward compile_step forward_step st of
        (Some e, st') \<Rightarrow> (Some e, st')
      | (None, st') \<Rightarrow> forward_calls compile_step forward_step n st')"

datatype step = Compile | Forward

definition record_step :: "step \<Rightarrow> step list \<Rightarrow> error option \<times> step list" where
  "record_step e w = (None, w @ [e])"

section \<open>Invariant and example graphs\<close>

text \<open>
  Referential symmetry (the invariant of the data model): every input listed by an output
  points back at that output.
\<close>

definition referential_symmetry :: "'v heap \<Rightarrow> bool" where
  "referential_symmetry s \<longleftrightarrow>
     list_all (\<lambda>(ox, ob). list_all (\<lambda>ix. get_connected_output ix s = Some ox) (to_inputs ob))
       (enumerate 0 (outputs_of s))"

text \<open>
  Output 0 (of module 0) feeds inputs 0 and 1 (of modules 2 and 3); output 1 (of module 1)
  feeds nothing.
\<close>

definition reroute_example :: "unit heap" where
  "reroute_example =
     \<lparr>modules_of =
        [\<lparr>inputs = [], outputs = [(''out'', 0)], hyperps = [], is_compiled = False\<rparr>,
         \<lparr>inputs = [], outputs = [(''out'', 1)], hyperps = [], is_compiled = False\<rparr>,
         \<lparr>inputs = [(''in'', 0)], outputs = [], hyperps = [], is_compiled = False\<rparr>,
         \<lparr>inputs = [(''in'', 1)], outputs = [], hyperps = [], is_compiled = False\<rparr>],
      inputs_of =
        [\<lparr>i_module = 2, from_output = Some 0\<rparr>, \<lparr>i_module = 3, from_output = Some 0\<rparr>],
      outputs_of = [\<lparr>o_module = 0, to_inputs = [0, 1]\<rparr>, \<lparr>o_module = 1, to_inputs = []\<rparr>],
      hyperps_of = []\<rparr>"

text \<open>Module 0 feeds module 1: output 0 is connected to input 0.\<close>

definition traverse_example :: "unit heap" where
  "traverse_example =
     \<lparr>modules_of =
        [\<lparr>inputs = [], outputs = [(''out'', 0)], hyperps = [], is_compiled = False\<rparr>,
         \<lparr>inputs = [(''in'', 0)], outputs = [(''out'', 1)], hyperps = [], is_compiled = False\<rparr>],
      inputs_of = [\<lparr>i_module = 1, from_output = Some 0\<rparr>],
      outputs_of = [\<lparr>o_module = 0, to_inputs = [0]\<rparr>, \<lparr>o_module = 1, to_inputs = []\<rparr>],
      hyperps_of = []\<rparr>"

text \<open>Output 0 feeds input 0; input 1 is free.\<close>

definition connect_example :: "unit heap" where
  "connect_example =
     \<lparr>modules_of =
        [\<lparr>inputs = [], outputs = [(''out'', 0)], hyperps = [], is_compiled = False\<rparr>,
         \<lparr>inputs = [(''in0'', 0), (''in1'', 1)], outputs = [], hyperps = [],
           is_compiled = False\<rparr>],
      inputs_of = [\<lparr>i_module = 1, from_output = Some 0\<rparr>, \<lparr>i_module = 1, from_output = None\<rparr>],
      outputs_of = [\<lparr>o_module = 0, to_inputs = [0]\<rparr>],
      hyperps_of = []\<rparr>"

text \<open>A visit function that never stops the traversal and records the modules it is given.\<close>

definition record_visit :: "nat \<Rightarrow> nat list \<Rightarrow> error + bool \<times> nat list" where
  "record_visit m visited = Inr (False, visited @ [m])"

text \<open>
  A closed store: every reference held by a stored object is a position of the store (in
  Python every reference is).
\<close>

definition closed_heap :: "'v heap \<Rightarrow> bool" where
  "closed_heap s \<longleftrightarrow>
     (\<forall>md \<in> set (modules_of s).
        (\<forall>ix \<in> set (map snd (inputs md)). ix < length (inputs_of s)) \<and>
        (\<forall>ox \<in> set (map snd (outputs md)). ox < length (outputs_of s)) \<and>
        (\<forall>h \<in> set (map snd (hyperps md)). h < length (hyperps_of s))) \<and>
     (\<forall>i \<in> set (inputs_of s).
        i_module i < length (modules_of s) \<and>
        (case from_output i of None \<Rightarrow> True | Some ox \<Rightarrow> ox < length (outputs_of s))) \<and>
     (\<forall>ob \<in> set (outputs_of s).
        o_module ob < length (modules_of s) \<and>
        (\<forall>ix \<in> set (to_inputs ob). ix < length (inputs_of s)))"

text \<open>
  The modules reachable backward from a list of outputs: their owners, and the owners of
  the outputs connected to the inputs of a reachable module.
\<close>

inductive_set backward_reachable :: "'v heap \<Rightarrow> nat list \<Rightarrow> nat set"
  for s :: "'v heap" and output_lst :: "nat list" where
  seed: "ox \<in> set output_lst \<Longrightarrow> lookup (outputs_of s) ox = Some ob \<Longrightarrow>
           o_module ob \<in> backward_reachable s output_lst"
| upstream: "m \<in> backward_reachable s output_lst \<Longrightarrow> lookup (modules_of s) m = Some md \<Longrightarrow>
           ix \<in> set (map snd (inputs md)) \<Longrightarrow> lookup (inputs_of s) ix = Some i \<Longrightarrow>
           from_output i = Some ox \<Longrightarrow> lookup (outputs_of s) ox = Some ob \<Longrightarrow>
           o_module ob \<in> backward_reachable s output_lst"

code_pred backward_reachablep .

text \<open>
  Module 0 feeds module 1; both depend on hyperparameter 0, which is not set, and module 1
  also on hyperparameter 1, which is set.
\<close>

definition hyperp_example :: "nat heap" where
  "hyperp_example =
     \<lparr>modules_of =
        [\<lparr>inputs = [], outputs = [(''out'', 0)], hyperps = [(''h'', 0)], is_compiled = False\<rparr>,
         \<lparr>inputs = [(''in'', 0)], outputs = [(''out'', 1)], hyperps = [(''h'', 0), (''k'', 1)],
           is_compiled = False\<rparr>],
      inputs_of = [\<lparr>i_module = 1, from_output = Some 0\<rparr>],
      outputs_of = [\<lparr>o_module = 0, to_inputs = [0]\<rparr>, \<lparr>o_module = 1, to_inputs = []\<rparr>],
      hyperps_of = [\<lparr>set_done = False, val = None, h_modules = [0, 1]\<rparr>,
                    \<lparr>set_done = True, val = Some 3, h_modules = [1]\<rparr>]\<rparr>"

text \<open>
  Module 0 feeds module 1, which feeds module 2; only module 2 has a hyperparameter, and
  it is not set.
\<close>

definition downstream_example :: "nat heap" where
  "downstream_example =
     \<lparr>modules_of =
        [\<lparr>inputs = [], outputs = [(''out'', 0)], hyperps = [], is_compiled = False\<rparr>,
         \<lparr>inputs = [(''in'', 0)], outputs = [(''out'', 1)], hyperps = [], is_compiled = False\<rparr>,
         \<lparr>inputs = [(''in'', 1)], outputs = [], hyperps = [(''h'', 0)], is_compiled = False\<rparr>],
      inputs_of = [\<lparr>i_module = 1, from_output = Some 0\<rparr>, \<lparr>i_module = 2, from_output = Some 1\<rparr>],
      outputs_of = [\<lparr>o_module = 0, to_inputs = [0]\<rparr>, \<lparr>o_module = 1, to_inputs = [1]\<rparr>],
      hyperps_of = [\<lparr>set_done = False, val = None, h_modules = [2]\<rparr>]\<rparr>"

text \<open>
  \<open>feeds s ms ix\<close>: input \<open>ix\<close> is in the connected-inputs list of an output of one of the
  modules \<open>ms\<close>. \<open>inputs_satisfied\<close>: every declared input of the module at position \<open>k\<close>
  of the sequence is a seed input or is fed by a module at a position before \<open>k\<close>.
\<close>

definition feeds :: "'v heap \<Rightarrow> nat list \<Rightarrow> nat \<Rightarrow> bool" where
  "feeds s ms ix =
     list_ex (\<lambda>m. case lookup (modules_of s) m of
                     None \<Rightarrow> False
                   | Some md \<Rightarrow>
                       list_ex (\<lambda>ox. case lookup (outputs_of s) ox of
                                        None \<Rightarrow> False
                                      | Some ob \<Rightarrow> ix \<in> set (to_inputs ob))
                         (map snd (outputs md))) ms"

definition inputs_satisfied :: "'v heap \<Rightarrow> nat list \<Rightarrow> nat list \<Rightarrow> bool" where
  "inputs_satisfied s input_lst module_seq \<longleftrightarrow>
     (\<forall>k<length module_seq.
        case lookup (modules_of s) (module_seq ! k) of
          None \<Rightarrow> False
        | Some md \<Rightarrow>
            list_all (\<lambda>ix. ix \<in> set input_lst \<or> feeds s (take k module_seq) ix)
              (map snd (inputs md)))"

text \<open>Three modules in a row: module 0 feeds module 1, which feeds module 2.\<close>

definition chain_example :: "unit heap" where
  "chain_example =
     \<lparr>modules_of =
        [\<lparr>inputs = [(''in'', 0)], outputs = [(''out'', 0)], hyperps = [], is_compiled = False\<rparr>,
         \<lparr>inputs = [(''in'', 1)], outputs = [(''out'', 1)], hyperps = [], is_compiled = False\<rparr>,
         \<lparr>inputs = [(''in'', 2)], outputs = [(''out'', 2)], hyperps = [], is_compiled = False\<rparr>],
      inputs_of = [\<lparr>i_module = 0, from_output = None\<rparr>, \<lparr>i_module = 1, from_output = Some 0\<rparr>,
                   \<lparr>i_module = 2, from_output = Some 1\<rparr>],
      outputs_of = [\<lparr>o_module = 0, to_inputs = [1]\<rparr>, \<lparr>o_module = 1, to_inputs = [2]\<rparr>,
                    \<lparr>o_module = 2, to_inputs = []\<rparr>],
      hyperps_of = []\<rparr>"

section \<open>Ports: connect, disconnect, reroute\<close>

text \<open>
  C1. Output 0 is connected to inputs [0, 1] and output 1 to nothing. After
  \<open>reroute_all_connected_inputs\<close> from output 0 to output 1 the call has returned without
  an exception, but only input 0 was moved: output 0 still lists input 1, and output 1
  lists [0] instead of [0, 1]. Removing the current element from the list being iterated
  makes the iterator skip the next one.
\<close>

theorem reroute_all_connected_inputs_skips:
  "reroute_all_connected_inputs 0 (OutputRef 1) reroute_example =
     Some (None, reroute_example\<lparr>
       inputs_of := [\<lparr>i_module = 2, from_output = Some 1\<rparr>, \<lparr>i_module = 3, from_output = Some 0\<rparr>],
       outputs_of := [\<lparr>o_module = 0, to_inputs = [1]\<rparr>, \<lparr>o_module = 1, to_inputs = [0]\<rparr>]\<rparr>)"
  by (simp add: reroute_all_connected_inputs_def reroute_example_def reroute_loop.simps
      Input_disconnect_def Input_connect_def lookup_def)

lemma referential_symmetryD:
  assumes "referential_symmetry s" and "lookup (outputs_of s) ox = Some ob"
    and "ix \<in> set (to_inputs ob)"
  shows "get_connected_output ix s = Some ox"
proof -
  from assms(2) have "(ox, ob) \<in> set (enumerate 0 (outputs_of s))"
    by (auto simp: in_set_enumerate_eq lookup_def split: if_splits)
  with assms(1) have "list_all (\<lambda>ix. get_connected_output ix s = Some ox) (to_inputs ob)"
    unfolding referential_symmetry_def list_all_iff by blast
  with assms(3) show ?thesis by (simp add: list_all_iff)
qed

text \<open>
  C8. In a store with referential symmetry, connecting an output to a free input succeeds
  (at every recursion limit);
  afterwards the input is connected, its connected output is that output, the output lists
  the input exactly once, and disconnecting the input gives back the store as it was.
\<close>

theorem connect_disconnect_round_trip:
  assumes sym: "referential_symmetry s"
    and i: "lookup (inputs_of s) inp = Some i" and free: "from_output i = None"
    and ob: "lookup (outputs_of s) out = Some ob"
  shows "\<exists>s1. Output_connect limit out (InputRef inp) s = (None, s1) \<and>
              is_connected inp s1 \<and> get_connected_output inp s1 = Some out \<and>
              count_list (get_connected_inputs out s1) inp = 1 \<and>
              Input_disconnect inp s1 = (None, s)"
proof -
  have notin: "inp \<notin> set (to_inputs ob)"
  proof
    assume "inp \<in> set (to_inputs ob)"
    with sym ob have "get_connected_output inp s = Some out"
      by (rule referential_symmetryD)
    with i free show False by (simp add: get_connected_output_def)
  qed
  let ?s1 = "s\<lparr>inputs_of := (inputs_of s)[inp := i\<lparr>from_output := Some out\<rparr>],
               outputs_of := (outputs_of s)[out := ob\<lparr>to_inputs := to_inputs ob @ [inp]\<rparr>]\<rparr>"
  have li: "inp < length (inputs_of s)" "inputs_of s ! inp = i"
    using i by (auto simp: lookup_def split: if_splits)
  have lo: "out < length (outputs_of s)" "outputs_of s ! out = ob"
    using ob by (auto simp: lookup_def split: if_splits)
  have c: "Output_connect limit out (InputRef inp) s = (None, ?s1)"
    using i free ob by (simp add: Input_connect_def)
  have i1: "lookup ((inputs_of s)[inp := x]) inp = Some x" for x
    using li by (simp add: lookup_def)
  have o1: "lookup ((outputs_of s)[out := y]) out = Some y" for y
    using lo by (simp add: lookup_def)
  have cnt: "count_list (to_inputs ob @ [inp]) inp = 1"
    using notin by (simp add: count_list_0_iff)
  have i0: "i\<lparr>from_output := None\<rparr> = i" using free by simp
  have upd_i: "(inputs_of s)[inp := i] = inputs_of s"
    using li(2) list_update_id [of "inputs_of s" inp] by simp
  have upd_o: "(outputs_of s)[out := ob] = outputs_of s"
    using lo(2) list_update_id [of "outputs_of s" out] by simp
  have rm: "remove1 inp (to_inputs ob @ [inp]) = to_inputs ob"
    using notin by (simp add: remove1_append)
  have rt: "Input_disconnect inp ?s1 = (None, s)"
    by (simp add: Input_disconnect_def i1 o1 rm i0 upd_i upd_o)
  have "is_connected inp ?s1" "get_connected_output inp ?s1 = Some out"
    "count_list (get_connected_inputs out ?s1) inp = 1"
    using notin
    by (simp_all add: is_connected_def get_connected_output_def get_connected_inputs_def
        i1 o1 count_list_0_iff)
  with c rt show ?thesis by blast
qed

lemma connect_example_symmetry: "referential_symmetry connect_example"
  by (simp add: referential_symmetry_def connect_example_def get_connected_output_def
      lookup_def)

theorem connect_disconnect_round_trip_witness:
  "referential_symmetry connect_example \<and>
   (\<exists>s1. Output_connect 1000 0 (InputRef 1) connect_example = (None, s1) \<and>
         is_connected 1 s1 \<and> get_connected_output 1 s1 = Some 0 \<and>
         count_list (get_connected_inputs 0 s1) 1 = 1 \<and>
         Input_disconnect 1 s1 = (None, connect_example))"
  using connect_disconnect_round_trip
    [OF connect_example_symmetry, of 1 "\<lparr>i_module = 1, from_output = None\<rparr>" 0
        "\<lparr>o_module = 0, to_inputs = [0]\<rparr>" 1000]
    connect_example_symmetry
  by (simp add: connect_example_def lookup_def)

text \<open>
  \<open>Input.connect\<close> raises AssertionError on an input that is already connected and on an
  argument that is not an Output; \<open>Output.connect\<close> given an Output raises RecursionError
  whatever the recursion limit is. Each leaves the store as it was.
\<close>

lemma Input_connect_connected:
  "is_connected self s \<Longrightarrow> Input_connect self out s = (Some AssertionError, s)"
  by (cases out) (auto simp: Input_connect_def is_connected_def split: option.splits)

lemma Input_connect_Input: "Input_connect self (InputRef ix) s = (Some AssertionError, s)"
  by (simp add: Input_connect_def)

lemma Output_connect_Output:
  "Output_connect limit self (OutputRef ox) s = (Some RecursionError, s)"
  by (induction limit arbitrary: self ox) simp_all

text \<open>
  C9. Connecting an input that already has a connected output fails with AssertionError,
  through \<open>Input.connect\<close> (whatever its argument is) and through \<open>Output.connect\<close>;
  \<open>Input.connect\<close> given an Input instead of an Output fails with AssertionError;
  \<open>Output.connect\<close> given an Output instead of an Input fails with RecursionError, at
  every recursion limit. Every one of these calls returns, and with the store unchanged.
\<close>

theorem connect_misuse_raises:
  "(is_connected inp s \<longrightarrow>
      Input_connect inp out s = (Some AssertionError, s) \<and>
      Output_connect limit self (InputRef inp) s = (Some AssertionError, s)) \<and>
   Input_connect inp (InputRef ix) s = (Some AssertionError, s) \<and>
   Output_connect limit self (OutputRef ox) s = (Some RecursionError, s)"
proof (intro conjI impI)
  assume c: "is_connected inp s"
  then show "Input_connect inp out s = (Some AssertionError, s)"
    by (rule Input_connect_connected)
  from c show "Output_connect limit self (InputRef inp) s = (Some AssertionError, s)"
    by (simp add: Input_connect_connected)
next
  show "Input_connect inp (InputRef ix) s = (Some AssertionError, s)"
    by (rule Input_connect_Input)
next
  show "Output_connect limit self (OutputRef ox) s = (Some RecursionError, s)"
    by (rule Output_connect_Output)
qed

theorem connect_misuse_raises_witness:
  "is_connected 0 connect_example \<and>
   Input_connect 0 (OutputRef 0) connect_example = (Some AssertionError, connect_example) \<and>
   Output_connect 1000 0 (InputRef 0) connect_example =
     (Some AssertionError, connect_example) \<and>
   Input_connect 1 (InputRef 0) connect_example = (Some AssertionError, connect_example) \<and>
   Output_connect 1000 0 (OutputRef 0) connect_example =
     (Some RecursionError, connect_example)"
proof -
  have c: "is_connected 0 connect_example"
    by (simp add: is_connected_def connect_example_def lookup_def)
  from c connect_misuse_raises
    [where inp = 0 and s = connect_example and out = "OutputRef 0" and limit = 1000
       and self = 0 and ox = 0]
    connect_misuse_raises
    [where inp = 1 and s = connect_example and ix = 0]
  show ?thesis by simp
qed

section \<open>Traversal\<close>

text \<open>
  C2. With seed outputs [0, 1] on the example graph (module 0 owns output 0 and is upstream
  of module 1, which owns output 1) the visit function is applied to module 0 twice: the
  seed modules are never entered into the memo.
\<close>

theorem traverse_backward_visits_seed_twice:
  "traverse_backward traverse_example [0, 1] record_visit [] = Inr [0, 1, 0]"
  by (simp add: traverse_backward_def extract_unique_modules_def get_module_def lookup_def
      traverse_example_def OrderedSet_add_def record_visit_def)

text \<open>The stop signal ends the traversal at once: no further module is visited.\<close>

lemma traverse_loop_stops:
  "fn m a = Inr (True, a') \<Longrightarrow> traverse_loop s fn (m # ms) memo a = Inr a'"
  by simp

section \<open>Hyperparameter.set_val\<close>

lemma run_updates_all:
  "\<forall>m\<in>set ms. \<forall>w. fst (update m H w) = None \<Longrightarrow>
     run_updates update H ms w = (None, foldl (\<lambda>w m. snd (update m H w)) w ms)"
proof (induction ms arbitrary: w)
  case Nil
  then show ?case by simp
next
  case (Cons m ms)
  then have "fst (update m H w) = None" by simp
  then obtain w' where w': "update m H w = (None, w')" by (cases "update m H w") auto
  with Cons show ?case by simp
qed

lemma registered_modules:
  "h_modules (foldl (\<lambda>H m. register_module m H) Hyperparameter_init regs) =
     rev (remdups (rev regs))"
proof (induction regs rule: rev_induct)
  case Nil
  then show ?case by (simp add: Hyperparameter_init_def)
next
  case (snoc x xs)
  have "set (rev (remdups (rev xs))) = set xs" by simp
  with snoc show ?case
    by (simp add: register_module_def OrderedSet_add_def)
qed

lemma registered_unset:
  "set_done (foldl (\<lambda>H m. register_module m H) Hyperparameter_init regs) = False"
  by (induction regs rule: rev_induct) (simp_all add: Hyperparameter_init_def register_module_def)

lemma record_updates_trace:
  "foldl (\<lambda>w m. snd (record_update m H w)) w ms = w @ map (\<lambda>m. (m, is_set H, val H)) ms"
  by (induction ms arbitrary: w) (simp_all add: record_update_def)

text \<open>
  C5. Let H be a fresh hyperparameter on which the modules \<open>regs\<close> were registered in that
  order (possibly repeatedly), and v a value the validation accepts. The dependents of H
  are then \<open>regs\<close> without repetitions, in order of first registration. If the hooks of
  these modules return normally, \<open>set_val\<close> returns normally with H set to v and with the
  state obtained by running each dependent's hook once, in that order, each hook being
  given H already set to v; with the recording hook, the calls recorded are exactly those.
\<close>

theorem set_val_notifies_dependents:
  assumes H: "H = foldl (\<lambda>H m. register_module m H) Hyperparameter_init regs"
    and ok: "check_val v = None"
    and hooks: "\<forall>m\<in>set regs. \<forall>w. fst (update m (H\<lparr>set_done := True, val := Some v\<rparr>) w) = None"
  shows "h_modules H = rev (remdups (rev regs)) \<and>
         set_val check_val update v (H, w) =
           (None, (H\<lparr>set_done := True, val := Some v\<rparr>,
                   foldl (\<lambda>w m. snd (update m (H\<lparr>set_done := True, val := Some v\<rparr>) w)) w
                     (rev (remdups (rev regs))))) \<and>
         is_set (H\<lparr>set_done := True, val := Some v\<rparr>) \<and>
         get_val (H\<lparr>set_done := True, val := Some v\<rparr>) = Inr v \<and>
         snd (snd (set_val check_val record_update v (H, []))) =
           map (\<lambda>m. (m, True, Some v)) (rev (remdups (rev regs)))"
proof -
  let ?H' = "H\<lparr>set_done := True, val := Some v\<rparr>"
  have ms: "h_modules H = rev (remdups (rev regs))"
    unfolding H by (rule registered_modules)
  have unset: "\<not> set_done H" unfolding H by (simp add: registered_unset)
  have "\<forall>m\<in>set (h_modules H). \<forall>w. fst (update m ?H' w) = None"
    using hooks ms by simp
  then have run: "run_updates update ?H' (h_modules H) w =
               (None, foldl (\<lambda>w m. snd (update m ?H' w)) w (h_modules H))"
    by (rule run_updates_all)
  have sv: "set_val check_val update v (H, w) =
              (None, (?H', foldl (\<lambda>w m. snd (update m ?H' w)) w (h_modules H)))"
    using unset ok run by (simp add: set_val_def)
  have "\<forall>m\<in>set (h_modules H). \<forall>w. fst (record_update m ?H' w) = None"
    by (simp add: record_update_def)
  then have "run_updates record_update ?H' (h_modules H) [] =
          (None, foldl (\<lambda>w m. snd (record_update m ?H' w)) [] (h_modules H))"
    by (rule run_updates_all)
  then have tr: "snd (snd (set_val check_val record_update v (H, []))) =
                   map (\<lambda>m. (m, True, Some v)) (h_modules H)"
    using unset ok by (simp add: set_val_def record_updates_trace is_set_def)
  show ?thesis
    using ms sv tr by (simp add: is_set_def get_val_def)
qed

theorem set_val_notifies_dependents_witness:
  "snd (snd (set_val (\<lambda>v. if v \<le> (9::nat) then None else Some ValueError) record_update 5
       (foldl (\<lambda>H m. register_module m H) Hyperparameter_init [4, 7, 4], []))) =
     [(4, True, Some 5), (7, True, Some 5)]"
  using set_val_notifies_dependents
    [of "foldl (\<lambda>H m. register_module m H) Hyperparameter_init [4, 7, 4]" "[4, 7, 4]"
        "\<lambda>v. if v \<le> (9::nat) then None else Some ValueError" 5 record_update "[]"]
  by (simp add: record_update_def)

text \<open>
  C6. A value that the validation rejects makes \<open>set_val\<close> on an unset hyperparameter
  raise the validation's exception and leave the hyperparameter and the state the hooks
  work on unchanged, whatever the hooks are; on a hyperparameter that is already set,
  \<open>set_val\<close> raises AssertionError with everything unchanged, whatever the value and the
  validation are.
\<close>

theorem set_val_rejects_without_mutation:
  "(\<not> set_done H \<and> check_val v = Some e \<longrightarrow>
      set_val check_val update v (H, w) = (Some e, (H, w))) \<and>
   (set_done H \<longrightarrow> set_val check_val update v (H, w) = (Some AssertionError, (H, w)))"
  by (simp add: set_val_def)

theorem set_val_rejects_without_mutation_witness:
  "set_val (\<lambda>v. if v \<le> (9::nat) then None else Some ValueError) record_update 12
     (register_module 3 Hyperparameter_init, []) =
     (Some ValueError, (register_module 3 Hyperparameter_init, [])) \<and>
   set_val (\<lambda>v. if v \<le> (9::nat) then None else Some ValueError) record_update 12
     (\<lparr>set_done = True, val = Some 1, h_modules = [3]\<rparr>, []) =
     (Some AssertionError, (\<lparr>set_done = True, val = Some 1, h_modules = [3]\<rparr>, []))"
  using set_val_rejects_without_mutation
    [of "register_module 3 Hyperparameter_init"
        "\<lambda>v. if v \<le> (9::nat) then None else Some ValueError" 12 ValueError record_update "[]"]
    set_val_rejects_without_mutation
    [of "\<lparr>set_done = True, val = Some 1, h_modules = [3]\<rparr>"
        "\<lambda>v. if v \<le> (9::nat) then None else Some ValueError" 12 ValueError record_update "[]"]
  by (simp add: register_module_def Hyperparameter_init_def)

section \<open>Module.forward\<close>

lemma forward_calls_compiled:
  "is_compiled md \<Longrightarrow> \<forall>w. fst (forward_step w) = None \<Longrightarrow>
     forward_calls compile_step forward_step n (md, w) =
       (None, (md, ((\<lambda>w. snd (forward_step w)) ^^ n) w))"
proof (induction n arbitrary: w)
  case 0
  then show ?case by simp
next
  case (Suc n)
  from Suc.prems have "fst (forward_step w) = None" by simp
  then obtain w' where w': "forward_step w = (None, w')" by (cases "forward_step w") auto
  with Suc show ?case by (simp add: Module_forward_def funpow_Suc_right del: funpow.simps)
qed

lemma record_steps_trace: "((\<lambda>w. snd (record_step e w)) ^^ n) w = w @ replicate n e"
  by (induction n arbitrary: w) (simp_all add: record_step_def replicate_append_same)

text \<open>
  C7. For a module that is not yet compiled and whose compile and forward steps return
  normally, n + 1 calls of \<open>forward\<close> return normally, leave the compiled flag true, and
  leave the state obtained by running the compile step once and then the forward step
  n + 1 times; with the recording steps the trace is one Compile followed by n + 1 Forward.
\<close>

theorem forward_compiles_once:
  assumes fresh: "\<not> is_compiled md"
    and c: "\<forall>w. fst (compile_step w) = None"
    and f: "\<forall>w. fst (forward_step w) = None"
  shows "forward_calls compile_step forward_step (Suc n) (md, w) =
           (None, (md\<lparr>is_compiled := True\<rparr>,
                   ((\<lambda>w. snd (forward_step w)) ^^ Suc n) (snd (compile_step w)))) \<and>
         snd (snd (forward_calls (record_step Compile) (record_step Forward) (Suc n) (md, []))) =
           Compile # replicate (Suc n) Forward"
proof -
  have gen: "forward_calls cs fs (Suc n) (md, w) =
               (None, (md\<lparr>is_compiled := True\<rparr>, ((\<lambda>w. snd (fs w)) ^^ Suc n) (snd (cs w))))"
    if cs: "\<forall>w. fst (cs w) = None" and fs: "\<forall>w. fst (fs w) = None"
    for cs fs :: "'b \<Rightarrow> error option \<times> 'b" and w
  proof -
    from cs obtain w1 where w1: "cs w = (None, w1)" by (cases "cs w") (auto dest: spec [of _ w])
    from fs obtain w2 where w2: "fs w1 = (None, w2)" by (cases "fs w1") (auto dest: spec [of _ w1])
    have "forward_calls cs fs (Suc n) (md, w) = forward_calls cs fs n (md\<lparr>is_compiled := True\<rparr>, w2)"
      using fresh w1 w2 by (simp add: Module_forward_def)
    also have "\<dots> = (None, (md\<lparr>is_compiled := True\<rparr>, ((\<lambda>w. snd (fs w)) ^^ n) w2))"
      using fs by (intro forward_calls_compiled) simp_all
    finally show ?thesis using w1 w2 by (simp add: funpow_Suc_right del: funpow.simps)
  qed
  have "snd (snd (forward_calls (record_step Compile) (record_step Forward) (Suc n) (md, []))) =
          ((\<lambda>w. snd (record_step Forward w)) ^^ Suc n) (snd (record_step Compile []))"
    by (subst gen) (simp_all add: record_step_def)
  also have "\<dots> = Compile # replicate (Suc n) Forward"
    by (simp only: record_steps_trace) (simp add: record_step_def)
  finally show ?thesis using gen [OF c f] by simp
qed

theorem forward_compiles_once_witness:
  "snd (snd (forward_calls (record_step Compile) (record_step Forward) 3
       (\<lparr>inputs = [], outputs = [], hyperps = [], is_compiled = False\<rparr>, []))) =
     [Compile, Forward, Forward, Forward] \<and>
   is_compiled (fst (snd (forward_calls (record_step Compile) (record_step Forward) 3
       (\<lparr>inputs = [], outputs = [], hyperps = [], is_compiled = False\<rparr>, []))))"
  using forward_compiles_once
    [of "\<lparr>inputs = [], outputs = [], hyperps = [], is_compiled = False\<rparr>"
        "record_step Compile" "record_step Forward" 2 "[]"]
  by (simp add: record_step_def numeral_3_eq_3)

section \<open>is_specified and get_unset_hyperparameters\<close>

lemma lookup_in_set: "lookup xs i = Some x \<Longrightarrow> x \<in> set xs"
  by (auto simp: lookup_def split: if_splits)

lemma lookup_valid: "i < length xs \<Longrightarrow> \<exists>x. lookup xs i = Some x"
  by (simp add: lookup_def)

lemma closed_output_owners:
  "closed_heap s \<Longrightarrow> m \<in> output_owners s \<Longrightarrow> m < length (modules_of s)"
  by (auto simp: closed_heap_def output_owners_def)

lemma visit_inputs_closed:
  "closed_heap s \<Longrightarrow> \<forall>ix\<in>set ixs. ix < length (inputs_of s) \<Longrightarrow>
     \<exists>r. visit_inputs s ixs memo ms = Inr r"
proof (induction ixs arbitrary: memo ms)
  case Nil
  then show ?case by simp
next
  case (Cons ix ixs)
  from Cons.prems obtain i where i: "lookup (inputs_of s) ix = Some i"
    using lookup_valid [of ix "inputs_of s"] by auto
  have rest: "\<exists>r. visit_inputs s ixs memo' ms' = Inr r" for memo' ms'
    using Cons.IH Cons.prems by simp
  show ?case
  proof (cases "from_output i")
    case None
    with i rest show ?thesis by simp
  next
    case (Some ox)
    from lookup_in_set [OF i] Cons.prems(1) Some have "ox < length (outputs_of s)"
      by (auto simp: closed_heap_def)
    then obtain ob where "lookup (outputs_of s) ox = Some ob"
      using lookup_valid by blast
    with i Some rest show ?thesis by simp
  qed
qed

lemma traverse_loop_total:
  "closed_heap s \<Longrightarrow> (\<And>m a. m < length (modules_of s) \<Longrightarrow> \<exists>r. fn m a = Inr r) \<Longrightarrow>
     \<forall>m\<in>set ms. m < length (modules_of s) \<Longrightarrow>
     \<exists>r. traverse_loop s fn ms memo a = Inr r"
proof (induction s fn ms memo a rule: traverse_loop.induct)
  case (1 s fn memo a)
  then show ?case by simp
next
  case (2 s fn m ms memo a)
  from "2.prems" have m: "m < length (modules_of s)" by simp
  from "2.prems"(2) [OF m] obtain is_over a' where fn: "fn m a = Inr (is_over, a')"
    by (metis surj_pair)
  show ?case
  proof (cases is_over)
    case True
    with fn show ?thesis by simp
  next
    case False
    from m obtain md where md: "lookup (modules_of s) m = Some md"
      using lookup_valid by blast
    have "\<forall>ix\<in>set (map snd (inputs md)). ix < length (inputs_of s)"
      using lookup_in_set [OF md] "2.prems"(1) by (auto simp: closed_heap_def)
    from visit_inputs_closed [OF "2.prems"(1) this] obtain memo' ms' where
      v: "visit_inputs s (map snd (inputs md)) memo ms = Inr (memo', ms')"
      by (metis surj_pair)
    from visit_inputs_grows [OF v] obtain new where
      new: "ms' = ms @ new" "set new \<subseteq> output_owners s"
      by blast
    have valid: "\<forall>m\<in>set ms'. m < length (modules_of s)"
      using new "2.prems"(3) closed_output_owners [OF "2.prems"(1)] by auto
    have "\<exists>r. traverse_loop s fn ms' memo' a' = Inr r"
      by (rule "2.IH" [OF fn refl _ md v refl "2.prems"(1) "2.prems"(2) valid])
         (use False in simp_all)
    with fn False md v show ?thesis by simp
  qed
qed

lemma is_specified_hyperps_stop:
  "is_specified_hyperps s hl a = Inr (True, b) \<Longrightarrow>
     \<exists>h\<in>set hl. \<exists>hp. lookup (hyperps_of s) h = Some hp \<and> \<not> set_done hp"
  by (induction hl) (auto split: option.splits if_splits)

lemma is_specified_hyperps_go: "is_specified_hyperps s hl a = Inr (False, b) \<Longrightarrow> b = a"
  by (induction hl) (auto split: option.splits if_splits)

lemma is_specified_hyperps_closed:
  "\<forall>h\<in>set hl. h < length (hyperps_of s) \<Longrightarrow> \<exists>r. is_specified_hyperps s hl a = Inr r"
  by (induction hl) (auto simp: lookup_def)

lemma unset_hyperps_collects:
  "unset_hyperps s hl hs = Inr (over, hs') \<Longrightarrow>
     \<not> over \<and> set hs \<subseteq> set hs' \<and>
     (\<forall>h\<in>set hl. \<forall>hp. lookup (hyperps_of s) h = Some hp \<longrightarrow> \<not> set_done hp \<longrightarrow> h \<in> set hs')"
proof (induction hl arbitrary: hs)
  case Nil
  then show ?case by simp
next
  case (Cons h hl)
  from Cons.prems obtain hp where hp: "lookup (hyperps_of s) h = Some hp"
    by (auto split: option.splits)
  show ?case
  proof (cases "set_done hp")
    case True
    with hp Cons.prems have "unset_hyperps s hl hs = Inr (over, hs')" by simp
    from Cons.IH [OF this] hp True show ?thesis by auto
  next
    case False
    with hp Cons.prems have "unset_hyperps s hl (OrderedSet_add h hs) = Inr (over, hs')"
      by simp
    from Cons.IH [OF this] hp show ?thesis by (auto simp: OrderedSet_add_def split: if_splits)
  qed
qed

lemma unset_hyperps_closed:
  "\<forall>h\<in>set hl. h < length (hyperps_of s) \<Longrightarrow> \<exists>r. unset_hyperps s hl hs = Inr r"
  by (induction hl arbitrary: hs) (auto simp: lookup_def)

lemma closed_module_hyperps:
  "closed_heap s \<Longrightarrow> m < length (modules_of s) \<Longrightarrow>
     \<forall>h\<in>set (map snd (hyperps (modules_of s ! m))). h < length (hyperps_of s)"
  using nth_mem [of m "modules_of s"] unfolding closed_heap_def by blast

lemma is_specified_fn_closed:
  "closed_heap s \<Longrightarrow> m < length (modules_of s) \<Longrightarrow> \<exists>r. is_specified_fn s m a = Inr r"
  using is_specified_hyperps_closed [OF closed_module_hyperps]
  by (simp add: is_specified_fn_def lookup_def)

lemma get_unset_fn_closed:
  "closed_heap s \<Longrightarrow> m < length (modules_of s) \<Longrightarrow> \<exists>r. get_unset_fn s m hs = Inr r"
  using unset_hyperps_closed [OF closed_module_hyperps]
  by (simp add: get_unset_fn_def lookup_def)

lemma get_unset_loop_grows:
  "traverse_loop s fn ms memo hs = Inr hs' \<Longrightarrow> fn = get_unset_fn s \<Longrightarrow> set hs \<subseteq> set hs'"
proof (induction s fn ms memo hs rule: traverse_loop.induct)
  case (1 s fn memo a)
  then show ?case by simp
next
  case (2 s fn m ms memo a)
  from "2.prems" obtain is_over a' where fn: "fn m a = Inr (is_over, a')"
    by (auto split: sum.splits)
  from fn "2.prems"(2) obtain md where md: "lookup (modules_of s) m = Some md"
    and u: "unset_hyperps s (map snd (hyperps md)) a = Inr (is_over, a')"
    by (auto simp: get_unset_fn_def split: option.splits)
  from unset_hyperps_collects [OF u] have no: "\<not> is_over" and sub: "set a \<subseteq> set a'"
    by simp_all
  from "2.prems"(1) fn no md obtain memo' ms' where
    v: "visit_inputs s (map snd (inputs md)) memo ms = Inr (memo', ms')"
    and r: "traverse_loop s fn ms' memo' a' = Inr hs'"
    by (auto split: sum.splits)
  have "set a' \<subseteq> set hs'"
    by (rule "2.IH" [OF fn refl no md v refl r "2.prems"(2)])
  with sub show ?case by blast
qed

lemma unset_found_when_unspecified:
  "traverse_loop s fn ms memo a = Inr False \<Longrightarrow> fn = is_specified_fn s \<Longrightarrow> a = True \<Longrightarrow>
     traverse_loop s (get_unset_fn s) ms memo hs = Inr hs' \<Longrightarrow> hs' \<noteq> []"
proof (induction s fn ms memo a arbitrary: hs rule: traverse_loop.induct)
  case (1 s fn memo a)
  then show ?case by simp
next
  case (2 s fn m ms memo a)
  from "2.prems"(1) obtain is_over a' where fn: "fn m a = Inr (is_over, a')"
    by (auto split: sum.splits)
  from fn "2.prems"(2) obtain md where md: "lookup (modules_of s) m = Some md"
    and sp: "is_specified_hyperps s (map snd (hyperps md)) a = Inr (is_over, a')"
    by (auto simp: is_specified_fn_def split: option.splits)
  from "2.prems"(4) obtain over2 hs2 where g: "get_unset_fn s m hs = Inr (over2, hs2)"
    by (auto split: sum.splits)
  with md have u: "unset_hyperps s (map snd (hyperps md)) hs = Inr (over2, hs2)"
    by (simp add: get_unset_fn_def)
  from unset_hyperps_collects [OF u] have no2: "\<not> over2"
    and found: "\<forall>h\<in>set (map snd (hyperps md)). \<forall>hp.
        lookup (hyperps_of s) h = Some hp \<longrightarrow> \<not> set_done hp \<longrightarrow> h \<in> set hs2"
    by simp_all
  from "2.prems"(4) g no2 md obtain memo2 ms2 where
    v2: "visit_inputs s (map snd (inputs md)) memo ms = Inr (memo2, ms2)"
    and r2: "traverse_loop s (get_unset_fn s) ms2 memo2 hs2 = Inr hs'"
    by (auto split: sum.splits)
  show ?case
  proof (cases is_over)
    case True
    with sp have "is_specified_hyperps s (map snd (hyperps md)) a = Inr (True, a')"
      by simp
    from is_specified_hyperps_stop [OF this]
    obtain h where "h \<in> set (map snd (hyperps md))"
      and "\<exists>hp. lookup (hyperps_of s) h = Some hp \<and> \<not> set_done hp"
      by blast
    with found have "h \<in> set hs2" by blast
    with get_unset_loop_grows [OF r2 refl] show ?thesis by auto
  next
    case False
    with sp have "is_specified_hyperps s (map snd (hyperps md)) a = Inr (False, a')"
      by simp
    from is_specified_hyperps_go [OF this] "2.prems"(3) have a': "a' = True" by simp
    from "2.prems"(1) fn False md v2 have r: "traverse_loop s fn ms2 memo2 a' = Inr False"
      by simp
    show ?thesis
      by (rule "2.IH" [OF fn refl False md v2 refl r "2.prems"(2) a' r2])
  qed
qed

lemma extract_loop_set:
  "extract_loop s xs acc = Inr ms \<Longrightarrow>
     set ms = set acc \<union> {m. \<exists>x\<in>set xs. get_module x s = Some m}"
proof (induction xs arbitrary: acc)
  case Nil
  then show ?case by simp
next
  case (Cons x xs)
  from Cons.prems obtain m where m: "get_module x s = Some m"
    and r: "extract_loop s xs (OrderedSet_add m acc) = Inr ms"
    by (auto split: option.splits)
  from Cons.IH [OF r] m show ?case
    by (auto simp: OrderedSet_add_def split: if_splits)
qed

lemma extract_loop_closed:
  "\<forall>x\<in>set xs. \<exists>m. get_module x s = Some m \<Longrightarrow> \<exists>ms. extract_loop s xs acc = Inr ms"
  by (induction xs arbitrary: acc) auto

lemma extract_outputs:
  assumes "\<forall>ox\<in>set output_lst. ox < length (outputs_of s)"
  shows "\<exists>ms. extract_unique_modules s (map OutputRef output_lst) = Inr ms \<and>
              set ms \<subseteq> output_owners s \<and>
              set ms = {m. \<exists>ox\<in>set output_lst. \<exists>ob. lookup (outputs_of s) ox = Some ob \<and>
                                                   o_module ob = m}"
proof -
  have "\<forall>x\<in>set (map OutputRef output_lst). \<exists>m. get_module x s = Some m"
    using assms by (auto simp: get_module_def lookup_def)
  from extract_loop_closed [OF this] obtain ms where
    ms: "extract_loop s (map OutputRef output_lst) [] = Inr ms" by blast
  from extract_loop_set [OF ms]
  have set_ms: "set ms = {m. \<exists>ox\<in>set output_lst. \<exists>ob. lookup (outputs_of s) ox = Some ob \<and>
                                                   o_module ob = m}"
    by (auto simp: get_module_def)
  then have "set ms \<subseteq> output_owners s"
    by (auto simp: output_owners_def dest: lookup_in_set)
  with ms set_ms show ?thesis by (simp add: extract_unique_modules_def)
qed

text \<open>
  C3 (amended). In a closed store, for seed outputs of the store: \<open>is_specified\<close> returns a
  truth value; it returns false exactly when \<open>get_unset_hyperparameters\<close> returns a
  collection, and that collection is then not empty; it returns true exactly when
  \<open>get_unset_hyperparameters\<close> raises AssertionError (its precondition is asserted).
\<close>

theorem unspecified_iff_unset_hyperparameters:
  assumes closed: "closed_heap s"
    and valid: "\<forall>ox\<in>set output_lst. ox < length (outputs_of s)"
  shows "(\<exists>b. is_specified s output_lst = Inr b) \<and>
         (is_specified s output_lst = Inr False \<longleftrightarrow>
            (\<exists>hs. get_unset_hyperparameters s output_lst = Inr hs \<and> hs \<noteq> [])) \<and>
         (is_specified s output_lst = Inr True \<longleftrightarrow>
            get_unset_hyperparameters s output_lst = Inl AssertionError)"
proof -
  from extract_outputs [OF valid] obtain ms where
    ms: "extract_unique_modules s (map OutputRef output_lst) = Inr ms"
    and own: "set ms \<subseteq> output_owners s"
    by blast
  have vms: "\<forall>m\<in>set ms. m < length (modules_of s)"
    using own closed_output_owners [OF closed] by blast
  have "\<exists>r. traverse_loop s (is_specified_fn s) ms {} True = Inr r"
    by (rule traverse_loop_total [OF closed _ vms]) (rule is_specified_fn_closed [OF closed])
  then obtain b where b: "is_specified s output_lst = Inr b"
    using ms by (auto simp: is_specified_def traverse_backward_def)
  have "\<exists>r. traverse_loop s (get_unset_fn s) ms {} [] = Inr r"
    by (rule traverse_loop_total [OF closed _ vms]) (rule get_unset_fn_closed [OF closed])
  then obtain hs where hs: "traverse_backward s output_lst (get_unset_fn s) [] = Inr hs"
    using ms by (auto simp: traverse_backward_def)
  show ?thesis
  proof (cases b)
    case True
    with b show ?thesis by (auto simp: get_unset_hyperparameters_def)
  next
    case False
    with b ms have "traverse_loop s (is_specified_fn s) ms {} True = Inr False"
      by (simp add: is_specified_def traverse_backward_def)
    moreover from hs ms have "traverse_loop s (get_unset_fn s) ms {} [] = Inr hs"
      by (simp add: traverse_backward_def)
    ultimately have "hs \<noteq> []"
      using unset_found_when_unspecified by blast
    with b False hs show ?thesis by (auto simp: get_unset_hyperparameters_def)
  qed
qed

lemma hyperp_example_closed: "closed_heap hyperp_example"
  by (simp add: closed_heap_def hyperp_example_def)

theorem unspecified_iff_unset_hyperparameters_witness:
  "closed_heap hyperp_example \<and>
   is_specified hyperp_example [1] = Inr False \<and>
   get_unset_hyperparameters hyperp_example [1] = Inr [0]"
proof -
  have v: "\<forall>ox\<in>set [1]. ox < length (outputs_of hyperp_example)"
    by (simp add: hyperp_example_def)
  have "get_unset_hyperparameters hyperp_example [1] = Inr [0]"
    by (simp add: get_unset_hyperparameters_def is_specified_def traverse_backward_def
        extract_unique_modules_def get_module_def lookup_def hyperp_example_def
        OrderedSet_add_def is_specified_fn_def get_unset_fn_def)
  with unspecified_iff_unset_hyperparameters [OF hyperp_example_closed v]
    hyperp_example_closed
  show ?thesis by auto
qed

text \<open>
  C3 as stated fails: on the example graph without hyperparameters \<open>is_specified\<close> is true
  and \<open>get_unset_hyperparameters\<close> raises AssertionError instead of returning an empty
  collection.
\<close>

theorem get_unset_hyperparameters_fails_when_specified:
  "is_specified traverse_example [1] = Inr True \<and>
   get_unset_hyperparameters traverse_example [1] = Inl AssertionError \<and>
   get_unset_hyperparameters traverse_example [1] \<noteq> Inr []"
  by (simp add: get_unset_hyperparameters_def is_specified_def traverse_backward_def
      extract_unique_modules_def get_module_def lookup_def traverse_example_def
      OrderedSet_add_def is_specified_fn_def)

lemma visit_inputs_upstream:
  "visit_inputs s ixs memo ms = Inr (memo', ms') \<Longrightarrow>
     set ms' \<subseteq> set ms \<union>
       {m. \<exists>ix\<in>set ixs. \<exists>i ox ob. lookup (inputs_of s) ix = Some i \<and> from_output i = Some ox \<and>
              lookup (outputs_of s) ox = Some ob \<and> o_module ob = m}"
proof (induction ixs arbitrary: memo ms)
  case Nil
  then show ?case by simp
next
  case (Cons ix ixs)
  from Cons.prems obtain i where i: "lookup (inputs_of s) ix = Some i"
    by (auto split: option.splits)
  show ?case
  proof (cases "from_output i")
    case None
    with i Cons.prems have "visit_inputs s ixs memo ms = Inr (memo', ms')" by simp
    from Cons.IH [OF this] show ?thesis by auto
  next
    case (Some ox)
    with i Cons.prems obtain ob where ob: "lookup (outputs_of s) ox = Some ob"
      by (auto split: option.splits)
    show ?thesis
    proof (cases "o_module ob \<in> memo")
      case True
      with i Some ob Cons.prems have "visit_inputs s ixs memo ms = Inr (memo', ms')" by simp
      from Cons.IH [OF this] show ?thesis by auto
    next
      case False
      with i Some ob Cons.prems
      have "visit_inputs s ixs (insert (o_module ob) memo) (ms @ [o_module ob]) =
              Inr (memo', ms')"
        by simp
      from Cons.IH [OF this] i Some ob show ?thesis by auto
    qed
  qed
qed

lemma backward_reachable_owners: "backward_reachable s output_lst \<subseteq> output_owners s"
proof
  fix m
  assume "m \<in> backward_reachable s output_lst"
  then show "m \<in> output_owners s"
    by cases (auto simp: output_owners_def dest: lookup_in_set)
qed

lemma is_specified_loop_no_hyperps:
  "closed_heap s \<Longrightarrow> fn = is_specified_fn s \<Longrightarrow> a = True \<Longrightarrow>
     set ms \<subseteq> backward_reachable s output_lst \<Longrightarrow>
     \<forall>m\<in>backward_reachable s output_lst. \<forall>md. lookup (modules_of s) m = Some md \<longrightarrow>
        hyperps md = [] \<Longrightarrow>
     traverse_loop s fn ms memo a = Inr True"
proof (induction s fn ms memo a rule: traverse_loop.induct)
  case (1 s fn memo a)
  then show ?case by simp
next
  case (2 s fn m ms memo a)
  note closed = "2.prems"(1)
  from "2.prems"(4) have reach: "m \<in> backward_reachable s output_lst" by simp
  with backward_reachable_owners closed_output_owners [OF closed]
  have "m < length (modules_of s)" by blast
  then obtain md where md: "lookup (modules_of s) m = Some md"
    using lookup_valid by blast
  with reach "2.prems"(5) have nohyp: "hyperps md = []" by blast
  with md "2.prems"(2,3) have fn: "fn m a = Inr (False, True)"
    by (simp add: is_specified_fn_def)
  have "\<forall>ix\<in>set (map snd (inputs md)). ix < length (inputs_of s)"
    using lookup_in_set [OF md] closed by (auto simp: closed_heap_def)
  from visit_inputs_closed [OF closed this] obtain memo' ms' where
    v: "visit_inputs s (map snd (inputs md)) memo ms = Inr (memo', ms')"
    by (metis surj_pair)
  have "set ms' \<subseteq> backward_reachable s output_lst"
  proof
    fix x
    assume "x \<in> set ms'"
    with visit_inputs_upstream [OF v] consider "x \<in> set ms"
      | ix i ox ob where "ix \<in> set (map snd (inputs md))" "lookup (inputs_of s) ix = Some i"
          "from_output i = Some ox" "lookup (outputs_of s) ox = Some ob" "o_module ob = x"
      by blast
    then show "x \<in> backward_reachable s output_lst"
    proof cases
      case 1
      with "2.prems"(4) show ?thesis by auto
    next
      case 2
      with backward_reachable.upstream [OF reach md] show ?thesis by blast
    qed
  qed
  then have "traverse_loop s fn ms' memo' True = Inr True"
    by (intro "2.IH" [OF fn refl _ md v refl closed "2.prems"(2) refl _ "2.prems"(5)])
       simp_all
  with fn md v show ?case by simp
qed

text \<open>
  C10. \<open>is_specified\<close> of the empty list of outputs is true in every store; and in a closed
  store it is true for every list of stored outputs whose backward-reachable modules have
  no hyperparameter dependencies.
\<close>

theorem is_specified_without_hyperparameters:
  "is_specified s [] = Inr True \<and>
   (closed_heap s \<and> (\<forall>ox\<in>set output_lst. ox < length (outputs_of s)) \<and>
    (\<forall>m\<in>backward_reachable s output_lst. \<forall>md. lookup (modules_of s) m = Some md \<longrightarrow>
        hyperps md = []) \<longrightarrow>
    is_specified s output_lst = Inr True)"
proof (intro conjI impI)
  show "is_specified s [] = Inr True"
    by (simp add: is_specified_def traverse_backward_def extract_unique_modules_def)
next
  assume a: "closed_heap s \<and> (\<forall>ox\<in>set output_lst. ox < length (outputs_of s)) \<and>
    (\<forall>m\<in>backward_reachable s output_lst. \<forall>md. lookup (modules_of s) m = Some md \<longrightarrow>
        hyperps md = [])"
  then have closed: "closed_heap s"
    and valid: "\<forall>ox\<in>set output_lst. ox < length (outputs_of s)"
    and nohyp: "\<forall>m\<in>backward_reachable s output_lst. \<forall>md.
        lookup (modules_of s) m = Some md \<longrightarrow> hyperps md = []"
    by simp_all
  from extract_outputs [OF valid] obtain ms where
    ms: "extract_unique_modules s (map OutputRef output_lst) = Inr ms"
    and set_ms: "set ms = {m. \<exists>ox\<in>set output_lst. \<exists>ob.
        lookup (outputs_of s) ox = Some ob \<and> o_module ob = m}"
    by blast
  have "set ms \<subseteq> backward_reachable s output_lst"
    unfolding set_ms by (auto intro: backward_reachable.seed)
  from is_specified_loop_no_hyperps [OF closed refl refl this nohyp]
  show "is_specified s output_lst = Inr True"
    using ms by (simp add: is_specified_def traverse_backward_def)
qed

lemma downstream_example_closed: "closed_heap downstream_example"
  by (simp add: closed_heap_def downstream_example_def)

theorem is_specified_without_hyperparameters_witness:
  "closed_heap downstream_example \<and> is_specified downstream_example [1] = Inr True \<and>
   is_specified downstream_example [] = Inr True"
proof -
  have v: "\<forall>ox\<in>set [1]. ox < length (outputs_of downstream_example)"
    by (simp add: downstream_example_def)
  have "output_owners downstream_example = {0, 1}"
    by (auto simp: output_owners_def downstream_example_def)
  with backward_reachable_owners [of downstream_example "[1]"]
  have "\<forall>m\<in>backward_reachable downstream_example [1]. m = 0 \<or> m = 1" by auto
  then have h: "\<forall>m\<in>backward_reachable downstream_example [1]. \<forall>md.
      lookup (modules_of downstream_example) m = Some md \<longrightarrow> hyperps md = []"
    by (auto simp: lookup_def downstream_example_def)
  from is_specified_without_hyperparameters [of downstream_example "[1]"]
    downstream_example_closed v h
  show ?thesis by blast
qed

section \<open>determine_module_eval_seq\<close>

lemma case_option_False:
  "(case x of None \<Rightarrow> False | Some y \<Rightarrow> P y) \<longleftrightarrow> (\<exists>y. x = Some y \<and> P y)"
  by (cases x) simp_all

lemma feeds_iff:
  "feeds s ms ix \<longleftrightarrow>
     (\<exists>m\<in>set ms. \<exists>md ox ob. lookup (modules_of s) m = Some md \<and>
        ox \<in> set (map snd (outputs md)) \<and> lookup (outputs_of s) ox = Some ob \<and>
        ix \<in> set (to_inputs ob))"
  unfolding feeds_def list_ex_iff case_option_False by blast

lemma feeds_append: "feeds s ms ix \<Longrightarrow> feeds s (ms @ ms') ix"
  by (auto simp: feeds_iff)

lemma extend_frontier_memo:
  "extend_frontier s oxs input_memo ms = Inr (input_memo', ms') \<Longrightarrow>
     input_memo' \<subseteq> input_memo \<union>
       {ix. \<exists>ox\<in>set oxs. \<exists>ob. lookup (outputs_of s) ox = Some ob \<and> ix \<in> set (to_inputs ob)}"
proof (induction oxs arbitrary: input_memo ms)
  case Nil
  then show ?case by simp
next
  case (Cons ox oxs)
  from Cons.prems obtain ob m_lst where
    ob: "lookup (outputs_of s) ox = Some ob" and
    rest: "extend_frontier s oxs (input_memo \<union> set (to_inputs ob)) (ms @ m_lst) =
             Inr (input_memo', ms')"
    by (auto split: option.splits sum.splits)
  from Cons.IH [OF rest] ob show ?case by auto
qed

lemma inputs_satisfied_snoc:
  assumes sat: "inputs_satisfied s seeds module_seq"
    and md: "lookup (modules_of s) m = Some md"
    and ins: "\<forall>ix\<in>set (map snd (inputs md)). ix \<in> set seeds \<or> feeds s module_seq ix"
  shows "inputs_satisfied s seeds (module_seq @ [m])"
  unfolding inputs_satisfied_def
proof (intro allI impI)
  fix k
  assume "k < length (module_seq @ [m])"
  then consider "k < length module_seq" | "k = length module_seq" by fastforce
  then show "case lookup (modules_of s) ((module_seq @ [m]) ! k) of
          None \<Rightarrow> False
        | Some md \<Rightarrow>
            list_all (\<lambda>ix. ix \<in> set seeds \<or> feeds s (take k (module_seq @ [m])) ix)
              (map snd (inputs md))"
  proof cases
    case 1
    then have e: "take k (module_seq @ [m]) = take k module_seq"
      "(module_seq @ [m]) ! k = module_seq ! k"
      by (simp_all add: nth_append take_append)
    from sat 1 have "case lookup (modules_of s) (module_seq ! k) of
          None \<Rightarrow> False
        | Some md \<Rightarrow>
            list_all (\<lambda>ix. ix \<in> set seeds \<or> feeds s (take k module_seq) ix)
              (map snd (inputs md))"
      unfolding inputs_satisfied_def by blast
    then show ?thesis unfolding e .
  next
    case 2
    with md ins show ?thesis by (simp add: list_all_iff)
  qed
qed

lemma eval_loop_sound:
  "eval_loop s ms module_seq module_memo input_memo = Inr seq \<Longrightarrow>
     module_memo = set module_seq \<Longrightarrow> distinct module_seq \<Longrightarrow>
     inputs_satisfied s seeds module_seq \<Longrightarrow>
     \<forall>ix\<in>input_memo. ix \<in> set seeds \<or> feeds s module_seq ix \<Longrightarrow>
     distinct seq \<and> inputs_satisfied s seeds seq"
proof (induction s ms module_seq module_memo input_memo rule: eval_loop.induct)
  case (1 s module_seq module_memo input_memo)
  then show ?case by simp
next
  case (2 s m ms module_seq module_memo input_memo)
  show ?case
  proof (cases "m \<in> module_memo")
    case True
    with "2.prems"(1) have "eval_loop s ms module_seq module_memo input_memo = Inr seq"
      by simp
    from "2.IH"(1) [OF True this "2.prems"(2-5)] show ?thesis .
  next
    case False
    with "2.prems"(1) obtain md where md: "lookup (modules_of s) m = Some md"
      by (auto split: option.splits)
    show ?thesis
    proof (cases "list_all (\<lambda>ix. ix \<in> input_memo) (map snd (inputs md))")
      case ready: True
      with "2.prems"(1) False md obtain input_memo' ms' where
        ext: "extend_frontier s (map snd (outputs md)) input_memo ms = Inr (input_memo', ms')"
        and r: "eval_loop s ms' (module_seq @ [m]) (insert m module_memo) input_memo' = Inr seq"
        by (auto split: sum.splits)
      have ins: "\<forall>ix\<in>set (map snd (inputs md)). ix \<in> set seeds \<or> feeds s module_seq ix"
        using ready "2.prems"(5) by (auto simp: list_all_iff)
      have memo: "insert m module_memo = set (module_seq @ [m])"
        using "2.prems"(2) by simp
      have dist: "distinct (module_seq @ [m])"
        using "2.prems"(2,3) False by simp
      have sat: "inputs_satisfied s seeds (module_seq @ [m])"
        by (rule inputs_satisfied_snoc [OF "2.prems"(4) md ins])
      have fed: "\<forall>ix\<in>input_memo'. ix \<in> set seeds \<or> feeds s (module_seq @ [m]) ix"
      proof
        fix ix
        assume "ix \<in> input_memo'"
        with extend_frontier_memo [OF ext] consider "ix \<in> input_memo"
          | ox ob where "ox \<in> set (map snd (outputs md))" "lookup (outputs_of s) ox = Some ob"
              "ix \<in> set (to_inputs ob)"
          by blast
        then show "ix \<in> set seeds \<or> feeds s (module_seq @ [m]) ix"
        proof cases
          case 1
          with "2.prems"(5) feeds_append show ?thesis by blast
        next
          case 2
          with md have "feeds s (module_seq @ [m]) ix"
            unfolding feeds_iff by (intro bexI [of _ m]) auto
          then show ?thesis ..
        qed
      qed
      from "2.IH"(2) [OF False md ready ext refl r memo dist sat fed]
      show ?thesis .
    next
      case waiting: False
      with "2.prems"(1) \<open>m \<notin> module_memo\<close> md
      have "eval_loop s ms module_seq module_memo input_memo = Inr seq" by simp
      from "2.IH"(3) [OF \<open>m \<notin> module_memo\<close> md waiting this "2.prems"(2-5)] show ?thesis .
    qed
  qed
qed

lemma inputs_modules_closed:
  "\<forall>ix\<in>set ixs. ix < length (inputs_of s) \<Longrightarrow> \<exists>r. inputs_modules s ixs = Inr r"
  by (induction ixs) (auto simp: lookup_def)

lemma extend_frontier_closed:
  "closed_heap s \<Longrightarrow> \<forall>ox\<in>set oxs. ox < length (outputs_of s) \<Longrightarrow>
     \<exists>r. extend_frontier s oxs input_memo ms = Inr r"
proof (induction oxs arbitrary: input_memo ms)
  case Nil
  then show ?case by simp
next
  case (Cons ox oxs)
  from Cons.prems obtain ob where ob: "lookup (outputs_of s) ox = Some ob"
    using lookup_valid [of ox "outputs_of s"] by auto
  have "\<forall>ix\<in>set (to_inputs ob). ix < length (inputs_of s)"
    using lookup_in_set [OF ob] Cons.prems(1) by (auto simp: closed_heap_def)
  from inputs_modules_closed [OF this] obtain m_lst where
    "inputs_modules s (to_inputs ob) = Inr m_lst" by blast
  with ob Cons.IH [OF Cons.prems(1)] Cons.prems(2) show ?case by simp
qed

lemma closed_input_owners:
  "closed_heap s \<Longrightarrow> m \<in> input_owners s \<Longrightarrow> m < length (modules_of s)"
  by (auto simp: closed_heap_def input_owners_def)

lemma eval_loop_total:
  "closed_heap s \<Longrightarrow> \<forall>m\<in>set ms. m < length (modules_of s) \<Longrightarrow>
     \<exists>seq. eval_loop s ms module_seq module_memo input_memo = Inr seq"
proof (induction s ms module_seq module_memo input_memo rule: eval_loop.induct)
  case (1 s module_seq module_memo input_memo)
  then show ?case by simp
next
  case (2 s m ms module_seq module_memo input_memo)
  note closed = "2.prems"(1)
  from "2.prems"(2) have rest: "\<forall>m\<in>set ms. m < length (modules_of s)" by simp
  show ?case
  proof (cases "m \<in> module_memo")
    case True
    with "2.IH"(1) [OF True closed rest] show ?thesis by simp
  next
    case False
    from "2.prems"(2) obtain md where md: "lookup (modules_of s) m = Some md"
      using lookup_valid [of m "modules_of s"] by auto
    show ?thesis
    proof (cases "list_all (\<lambda>ix. ix \<in> input_memo) (map snd (inputs md))")
      case ready: True
      have "\<forall>ox\<in>set (map snd (outputs md)). ox < length (outputs_of s)"
        using lookup_in_set [OF md] closed by (auto simp: closed_heap_def)
      from extend_frontier_closed [OF closed this] obtain input_memo' ms' where
        ext: "extend_frontier s (map snd (outputs md)) input_memo ms = Inr (input_memo', ms')"
        by (metis surj_pair)
      from extend_frontier_appends [OF ext] obtain new where
        "ms' = ms @ new" "set new \<subseteq> input_owners s" by blast
      with rest closed_input_owners [OF closed]
      have "\<forall>m\<in>set ms'. m < length (modules_of s)" by auto
      from "2.IH"(2) [OF False md ready ext refl closed this] False md ready ext
      show ?thesis by simp
    next
      case waiting: False
      with "2.IH"(3) [OF \<open>m \<notin> module_memo\<close> md waiting closed rest] \<open>m \<notin> module_memo\<close> md
      show ?thesis by simp
    qed
  qed
qed

lemma extract_inputs:
  assumes "\<forall>ix\<in>set input_lst. ix < length (inputs_of s)"
  shows "\<exists>ms. extract_unique_modules s (map InputRef input_lst) = Inr ms \<and>
              set ms \<subseteq> input_owners s"
proof -
  have "\<forall>x\<in>set (map InputRef input_lst). \<exists>m. get_module x s = Some m"
    using assms by (auto simp: get_module_def lookup_def)
  from extract_loop_closed [OF this] obtain ms where
    ms: "extract_loop s (map InputRef input_lst) [] = Inr ms" by blast
  from extract_loop_set [OF ms] have "set ms \<subseteq> input_owners s"
    by (auto simp: get_module_def input_owners_def dest: lookup_in_set)
  with ms show ?thesis by (simp add: extract_unique_modules_def)
qed

text \<open>
  C4. Whenever \<open>determine_module_eval_seq\<close> returns a sequence, no module occurs in it
  twice, and every declared input of every module of the sequence is one of the seed
  inputs or is listed as connected by an output of a module that stands strictly earlier
  in the sequence. In a closed store, for seed inputs of the store, it does return a
  sequence.
\<close>

theorem eval_seq_inputs_satisfied:
  "(determine_module_eval_seq s input_lst = Inr module_seq \<longrightarrow>
      distinct module_seq \<and> inputs_satisfied s input_lst module_seq) \<and>
   (closed_heap s \<and> (\<forall>ix\<in>set input_lst. ix < length (inputs_of s)) \<longrightarrow>
      (\<exists>seq. determine_module_eval_seq s input_lst = Inr seq))"
proof (rule conjI; rule impI)
  assume r: "determine_module_eval_seq s input_lst = Inr module_seq"
  then obtain ms where
    "eval_loop s ms [] {} (set input_lst) = Inr module_seq"
    by (auto simp: determine_module_eval_seq_def split: sum.splits)
  from eval_loop_sound [OF this, of input_lst]
  show "distinct module_seq \<and> inputs_satisfied s input_lst module_seq"
    by (simp add: inputs_satisfied_def)
next
  assume "closed_heap s \<and> (\<forall>ix\<in>set input_lst. ix < length (inputs_of s))"
  then have closed: "closed_heap s" and valid: "\<forall>ix\<in>set input_lst. ix < length (inputs_of s)"
    by simp_all
  from extract_inputs [OF valid] obtain ms where
    ms: "extract_unique_modules s (map InputRef input_lst) = Inr ms"
    and own: "set ms \<subseteq> input_owners s"
    by blast
  have "\<forall>m\<in>set ms. m < length (modules_of s)"
    using own closed_input_owners [OF closed] by blast
  from eval_loop_total [OF closed this] ms
  show "\<exists>seq. determine_module_eval_seq s input_lst = Inr seq"
    by (simp add: determine_module_eval_seq_def)
qed

lemma chain_example_seq: "determine_module_eval_seq chain_example [0] = Inr [0, 1, 2]"
  by (simp add: determine_module_eval_seq_def extract_unique_modules_def get_module_def
      lookup_def chain_example_def OrderedSet_add_def)

theorem eval_seq_inputs_satisfied_witness:
  "determine_module_eval_seq chain_example [0] = Inr [0, 1, 2] \<and>
   distinct [0, 1, 2 :: nat] \<and> inputs_satisfied chain_example [0] [0, 1, 2] \<and>
   closed_heap chain_example"
  using eval_seq_inputs_satisfied [of chain_example "[0]" "[0, 1, 2]"] chain_example_seq
  by (simp add: closed_heap_def chain_example_def)

end
